theory Spec2Isabelle
  imports Main "HOL-Library.AList"
begin

section \<open>The foundation module: users, validation, the in-memory service, the handlers\<close>

text \<open>
  Go strings are byte sequences; \<^typ>\<open>string\<close> is a list of 8-bit characters, so one
  \<^typ>\<open>char\<close> is one byte and \<^const>\<open>length\<close> is Go's \<^verbatim>\<open>len\<close>.
  Timestamps (\<^verbatim>\<open>time.Time\<close>) are integers; \<^verbatim>\<open>time.Now()\<close> and \<^verbatim>\<open>generateID()\<close>
  read the environment, so every operation that calls them takes the value read as an argument.
\<close>

subsection \<open>errors.go\<close>

datatype ErrorType =
    ErrorTypeValidation
  | ErrorTypeNotFound
  | ErrorTypeConflict
  | ErrorTypeInternal

text \<open>The \<^verbatim>\<open>Cause\<close> field is nil in every error the service builds and is left out.\<close>

record AppError =
  Type :: ErrorType
  Message :: string
  Field :: string


definition NewValidationError :: "string \<Rightarrow> string \<Rightarrow> AppError" where
  "NewValidationError field message =
     \<lparr>Type = ErrorTypeValidation, Message = message, Field = field\<rparr>"

definition NewNotFoundError :: "string \<Rightarrow> string \<Rightarrow> AppError" where
  "NewNotFoundError resource ident =
     \<lparr>Type = ErrorTypeNotFound,
      Message = resource @ '' with id '' @ [CHR 0x27] @ ident @ [CHR 0x27] @ '' not found'',
      Field = ''''\<rparr>"

definition NewConflictError :: "string \<Rightarrow> AppError" where
  "NewConflictError message =
     \<lparr>Type = ErrorTypeConflict, Message = message, Field = ''''\<rparr>"

subsection \<open>user.go\<close>

record User =
  ID :: string
  Name :: string
  Email :: string
  CreatedAt :: int
  UpdatedAt :: int

definition NewUser :: "string \<Rightarrow> int \<Rightarrow> string \<Rightarrow> string \<Rightarrow> User" where
  "NewUser gid now name email =
     \<lparr>ID = gid, Name = name, Email = email, CreatedAt = now, UpdatedAt = now\<rparr>"

text \<open>
  The first loop of \<^verbatim>\<open>isValidEmail\<close>: \<^verbatim>\<open>for i, char := range email\<close> with the running
  \<^verbatim>\<open>atIndex\<close> (initially \<open>-1\<close>). \<^const>\<open>None\<close> is the early \<^verbatim>\<open>return false\<close> at a second
  \<^verbatim>\<open>@\<close>. The range loop decodes UTF-8, but the byte \<^verbatim>\<open>0x40\<close> is never part of a
  multi-byte sequence and an invalid byte is skipped alone, so the loop meets exactly the
  bytes equal to \<^verbatim>\<open>@\<close>, each at its byte index.
\<close>

fun scanAt :: "nat \<Rightarrow> int \<Rightarrow> string \<Rightarrow> int option" where
  "scanAt i atIndex [] = Some atIndex"
| "scanAt i atIndex (c # cs) =
     (if c = CHR ''@''
      then (if atIndex \<noteq> - 1 then None else scanAt (Suc i) (int i) cs)
      else scanAt (Suc i) atIndex cs)"

text \<open>The second loop: \<^verbatim>\<open>for i := atIndex + 1; i < len(email); i++\<close>.\<close>

function dotAfter :: "string \<Rightarrow> nat \<Rightarrow> bool" where
  "dotAfter email i =
     (if i < length email
      then (if email ! i = CHR ''.'' \<and> int i < int (length email) - 1 then True
            else dotAfter email (Suc i))
      else False)"
  by pat_completeness auto
termination
  by (relation "measure (\<lambda>(email, i). length email - i)") auto

declare dotAfter.simps [simp del]

definition isValidEmail :: "string \<Rightarrow> bool" where
  "isValidEmail email =
     (case scanAt 0 (- 1) email of
        None \<Rightarrow> False
      | Some atIndex \<Rightarrow>
          if atIndex = - 1 \<or> atIndex = 0 \<or> atIndex = int (length email) - 1 then False
          else dotAfter email (nat (atIndex + 1)))"

definition Validate :: "User \<Rightarrow> AppError option" where
  "Validate u =
     (if Name u = '''' then Some (NewValidationError ''name'' ''name cannot be empty'')
      else if Email u = '''' then Some (NewValidationError ''email'' ''email cannot be empty'')
      else if \<not> isValidEmail (Email u)
        then Some (NewValidationError ''email'' ''email format is invalid'')
      else None)"

text \<open>
  \<^verbatim>\<open>User.Update\<close>: the temporary user holds only the two arguments; when it does not
  validate the method returns without touching the receiver.
\<close>

definition Update :: "int \<Rightarrow> User \<Rightarrow> string \<Rightarrow> string \<Rightarrow> User" where
  "Update now u name email =
     (let temp = \<lparr>ID = '''', Name = name, Email = email, CreatedAt = 0, UpdatedAt = 0\<rparr> in
      if Validate temp \<noteq> None then u
      else
        let u1 = (if name \<noteq> '''' then u\<lparr>Name := name\<rparr> else u);
            u2 = (if email \<noteq> '''' then u1\<lparr>Email := email\<rparr> else u1)
        in u2\<lparr>UpdatedAt := now\<rparr>)"

subsection \<open>service.go\<close>

text \<open>
  The \<^verbatim>\<open>users\<close> map of the service is an association list from id to user; a Go map has
  one entry per key, so a well-formed store has distinct keys. Assignment
  \<^verbatim>\<open>s.users[k] = v\<close> is \<^const>\<open>AList.update\<close>, \<^verbatim>\<open>delete(s.users, k)\<close> is
  \<^const>\<open>AList.delete\<close>, lookup is \<^const>\<open>map_of\<close>. Go ranges over a map in an unspecified
  order; the scans below only ask whether some entry satisfies a test, so their result
  does not depend on the order.
\<close>

type_synonym users = "(string \<times> User) list"

definition seedData :: "users \<Rightarrow> string \<Rightarrow> int \<Rightarrow> string \<Rightarrow> int \<Rightarrow> string \<Rightarrow> int \<Rightarrow> users" where
  "seedData s g1 t1 g2 t2 g3 t3 =
     (let seeds = [NewUser g1 t1 ''John Doe'' ''john.doe@example.com'',
                   NewUser g2 t2 ''Jane Smith'' ''jane.smith@example.com'',
                   NewUser g3 t3 ''Bob Johnson'' ''bob.johnson@example.com'']
      in foldl (\<lambda>m user. AList.update (ID user) user m) s seeds)"

definition NewInMemoryUserService ::
  "string \<Rightarrow> int \<Rightarrow> string \<Rightarrow> int \<Rightarrow> string \<Rightarrow> int \<Rightarrow> users" where
  "NewInMemoryUserService g1 t1 g2 t2 g3 t3 = seedData [] g1 t1 g2 t2 g3 t3"

definition GetUsers :: "users \<Rightarrow> User list" where
  "GetUsers s = map snd s"

definition GetUserByID :: "users \<Rightarrow> string \<Rightarrow> AppError + User" where
  "GetUserByID s ident =
     (case map_of s ident of
        None \<Rightarrow> Inl (NewNotFoundError ''user'' ident)
      | Some user \<Rightarrow> Inr user)"

fun checkEmailExists :: "users \<Rightarrow> string \<Rightarrow> AppError option" where
  "checkEmailExists [] email = None"
| "checkEmailExists ((k, user) # rest) email =
     (if Email user = email then Some (NewConflictError ''email already exists'')
      else checkEmailExists rest email)"

definition CreateUser ::
  "string \<Rightarrow> int \<Rightarrow> users \<Rightarrow> string \<Rightarrow> string \<Rightarrow> (AppError + User) \<times> users" where
  "CreateUser gid now s name email =
     (case checkEmailExists s email of
        Some err \<Rightarrow> (Inl err, s)
      | None \<Rightarrow>
          let user = NewUser gid now name email in
          (case Validate user of
             Some err \<Rightarrow> (Inl err, s)
           | None \<Rightarrow> (Inr user, AList.update (ID user) user s)))"

text \<open>The loop inside \<^verbatim>\<open>UpdateUser\<close> that looks for another user with the email.\<close>

fun emailHeldByOther :: "users \<Rightarrow> string \<Rightarrow> string \<Rightarrow> AppError option" where
  "emailHeldByOther [] ident email = None"
| "emailHeldByOther ((k, existingUser) # rest) ident email =
     (if ID existingUser \<noteq> ident \<and> Email existingUser = email
      then Some (NewConflictError ''email already exists'')
      else emailHeldByOther rest ident email)"

text \<open>
  \<^verbatim>\<open>user\<close> is a pointer into the map, so \<^verbatim>\<open>user.Update\<close> writes the stored record:
  the store returned on a failed validation is the one after the write.
\<close>

definition UpdateUser ::
  "int \<Rightarrow> users \<Rightarrow> string \<Rightarrow> string \<Rightarrow> string \<Rightarrow> (AppError + User) \<times> users" where
  "UpdateUser now s ident name email =
     (case map_of s ident of
        None \<Rightarrow> (Inl (NewNotFoundError ''user'' ident), s)
      | Some user \<Rightarrow>
          (case (if email \<noteq> [] \<and> email \<noteq> Email user
                 then emailHeldByOther s ident email else None) of
             Some err \<Rightarrow> (Inl err, s)
           | None \<Rightarrow>
               let user' = Update now user name email;
                   s' = AList.update ident user' s
               in (case Validate user' of
                     Some err \<Rightarrow> (Inl err, s')
                   | None \<Rightarrow> (Inr user', s'))))"

definition DeleteUser :: "users \<Rightarrow> string \<Rightarrow> AppError option \<times> users" where
  "DeleteUser s ident =
     (case map_of s ident of
        None \<Rightarrow> (Some (NewNotFoundError ''user'' ident), s)
      | Some user \<Rightarrow> (None, AList.delete ident s))"

subsection \<open>Store states reachable by sequential calls\<close>

inductive reachable :: "users \<Rightarrow> bool" where
  fresh: "reachable (NewInMemoryUserService g1 t1 g2 t2 g3 t3)"
| create: "reachable s \<Longrightarrow> reachable (snd (CreateUser gid now s name email))"
| update: "reachable s \<Longrightarrow> reachable (snd (UpdateUser now s ident name email))"
| delete: "reachable s \<Longrightarrow> reachable (snd (DeleteUser s ident))"

definition uniqueEmails :: "users \<Rightarrow> bool" where
  "uniqueEmails s \<longleftrightarrow>
     (\<forall>i j u v. map_of s i = Some u \<and> map_of s j = Some v \<and> i \<noteq> j \<longrightarrow> Email u \<noteq> Email v)"

subsection \<open>The critical sections of CreateUser\<close>

text \<open>
  \<^verbatim>\<open>CreateUser\<close> touches the map in two critical sections: \<^verbatim>\<open>checkEmailExists\<close> takes
  and releases the read lock, and only after \<^verbatim>\<open>NewUser\<close> and \<^verbatim>\<open>Validate\<close> (local data
  only) does the method take the write lock for the insert. A call is therefore two atomic
  steps on the shared map; between them other calls may run.
\<close>

datatype createPC =
    AtCheck string string
  | AtInsert User
  | Returned "AppError + User"

fun createStep :: "string \<Rightarrow> int \<Rightarrow> users \<Rightarrow> createPC \<Rightarrow> users \<times> createPC" where
  "createStep gid now s (AtCheck name email) =
     (case checkEmailExists s email of
        Some err \<Rightarrow> (s, Returned (Inl err))
      | None \<Rightarrow>
          let user = NewUser gid now name email in
          (case Validate user of
             Some err \<Rightarrow> (s, Returned (Inl err))
           | None \<Rightarrow> (s, AtInsert user)))"
| "createStep gid now s (AtInsert user) =
     (AList.update (ID user) user s, Returned (Inr user))"
| "createStep gid now s (Returned r) = (s, Returned r)"

text \<open>
  Concurrent calls: each has its generated id, its clock reading and its position; a
  schedule names the call that runs its next critical section.
\<close>

type_synonym createCall = "string \<times> int \<times> createPC"

fun runSchedule :: "users \<Rightarrow> createCall list \<Rightarrow> nat list \<Rightarrow> users \<times> createCall list" where
  "runSchedule s calls [] = (s, calls)"
| "runSchedule s calls (i # sched) =
     (if i < length calls
      then (case calls ! i of (gid, now, pc) \<Rightarrow>
              (case createStep gid now s pc of (s', pc') \<Rightarrow>
                 runSchedule s' (calls[i := (gid, now, pc')]) sched))
      else runSchedule s calls sched)"

subsection \<open>handlers.go and the routes of main.go\<close>


















subsection \<open>The invariant of the store\<close>

text \<open>
  Keys are distinct, every entry is stored under its own id and validates, and no email
  is held under two ids.
\<close>

definition storeInv :: "users \<Rightarrow> bool" where
  "storeInv s \<longleftrightarrow>
     distinct (map fst s)
     \<and> (\<forall>k u. map_of s k = Some u \<longrightarrow> ID u = k \<and> Validate u = None)
     \<and> (\<forall>i j u v. map_of s i = Some u \<and> map_of s j = Some v \<and> Email u = Email v \<longrightarrow> i = j)"

section \<open>Properties of the model\<close>

subsection \<open>The two scans of the email validator\<close>

lemma scanAt_found:
  "atIndex \<noteq> - 1 \<Longrightarrow> scanAt i atIndex cs = (if CHR ''@'' \<in> set cs then None else Some atIndex)"
  by (induction cs arbitrary: i) auto

lemma scanAt_start:
  "scanAt i (- 1) cs =
     (if count_list cs (CHR ''@'') = 0 then Some (- 1)
      else if count_list cs (CHR ''@'') = 1
        then Some (int (i + length (takeWhile (\<lambda>c. c \<noteq> CHR ''@'') cs)))
      else None)"
proof (induction cs arbitrary: i)
  case Nil
  then show ?case by simp
next
  case (Cons c cs)
  show ?case
  proof (cases "c = CHR ''@''")
    case True
    have "int i \<noteq> - 1" by simp
    then show ?thesis using True
      by (simp add: scanAt_found count_list_0_iff)
  next
    case False
    then show ?thesis using Cons.IH [of "Suc i"] by simp
  qed
qed

lemma dotAfter_iff:
  "dotAfter email i \<longleftrightarrow> (\<exists>j. i \<le> j \<and> Suc j < length email \<and> email ! j = CHR ''.'')"
proof (induction email i rule: dotAfter.induct)
  case (1 email i)
  show ?case
  proof (cases "i < length email")
    case False
    then show ?thesis by (subst dotAfter.simps) auto
  next
    case True
    show ?thesis
    proof (cases "email ! i = CHR ''.'' \<and> int i < int (length email) - 1")
      case hit: True
      then have "Suc i < length email" by linarith
      with hit show ?thesis by (subst dotAfter.simps) (use True in auto)
    next
      case miss: False
      have "dotAfter email i = dotAfter email (Suc i)"
        by (subst dotAfter.simps) (use True miss in auto)
      also have "\<dots> \<longleftrightarrow> (\<exists>j. Suc i \<le> j \<and> Suc j < length email \<and> email ! j = CHR ''.'')"
        using "1.IH" True miss by blast
      also have "\<dots> \<longleftrightarrow> (\<exists>j. i \<le> j \<and> Suc j < length email \<and> email ! j = CHR ''.'')"
      proof
        assume "\<exists>j. Suc i \<le> j \<and> Suc j < length email \<and> email ! j = CHR ''.''"
        then show "\<exists>j. i \<le> j \<and> Suc j < length email \<and> email ! j = CHR ''.''"
          using Suc_leD by blast
      next
        assume "\<exists>j. i \<le> j \<and> Suc j < length email \<and> email ! j = CHR ''.''"
        then obtain j where j: "i \<le> j" "Suc j < length email" "email ! j = CHR ''.''" by blast
        have "j \<noteq> i" using miss j by auto
        with j show "\<exists>j. Suc i \<le> j \<and> Suc j < length email \<and> email ! j = CHR ''.''"
          by (intro exI [of _ j]) simp
      qed
      finally show ?thesis .
    qed
  qed
qed

lemma count_one_index:
  "count_list cs x = 1 \<Longrightarrow> a < length cs \<Longrightarrow> cs ! a = x \<Longrightarrow> a = length (takeWhile (\<lambda>c. c \<noteq> x) cs)"
proof (induction cs arbitrary: a)
  case Nil
  then show ?case by simp
next
  case (Cons c cs)
  show ?case
  proof (cases "c = x")
    case True
    with Cons.prems have "x \<notin> set cs" by (simp add: count_list_0_iff)
    with Cons.prems True show ?thesis by (cases a) auto
  next
    case False
    with Cons.prems obtain b where "a = Suc b" by (cases a) auto
    with Cons False show ?thesis by auto
  qed
qed

lemma count_pos_index:
  "count_list cs x \<noteq> 0 \<Longrightarrow> length (takeWhile (\<lambda>c. c \<noteq> x) cs) < length cs \<and> cs ! length (takeWhile (\<lambda>c. c \<noteq> x) cs) = x"
  by (induction cs) (auto split: if_splits)

lemma isValidEmail_Nil: "\<not> isValidEmail []"
  by (simp add: isValidEmail_def)

subsection \<open>Validation, update and the service calls, case by case\<close>

lemma NewUser_sel:
  "ID (NewUser g t n e) = g" "Name (NewUser g t n e) = n" "Email (NewUser g t n e) = e"
  "CreatedAt (NewUser g t n e) = t" "UpdatedAt (NewUser g t n e) = t"
  by (simp_all add: NewUser_def)

lemma checkEmailExists_eq:
  "checkEmailExists s email =
     (if \<exists>(k, u) \<in> set s. Email u = email
      then Some (NewConflictError ''email already exists'') else None)"
  by (induction s email rule: checkEmailExists.induct) auto

lemma emailHeldByOther_eq:
  "emailHeldByOther s ident email =
     (if \<exists>(k, u) \<in> set s. ID u \<noteq> ident \<and> Email u = email
      then Some (NewConflictError ''email already exists'') else None)"
  by (induction s ident email rule: emailHeldByOther.induct) auto

lemma Validate_None_iff: "Validate u = None \<longleftrightarrow> Name u \<noteq> [] \<and> isValidEmail (Email u)"
  using isValidEmail_Nil by (auto simp: Validate_def)


lemma Update_cases:
  "Update now u name email =
     (if name \<noteq> [] \<and> isValidEmail email
      then u\<lparr>Name := name, Email := email, UpdatedAt := now\<rparr> else u)"
  using isValidEmail_Nil by (auto simp: Update_def Validate_None_iff Let_def)

lemma Validate_updated:
  "name \<noteq> [] \<Longrightarrow> isValidEmail email \<Longrightarrow>
     Validate (u\<lparr>Name := name, Email := email, UpdatedAt := now\<rparr>) = None"
  by (simp add: Validate_None_iff)

lemma CreateUser_Conflict:
  "(k, u) \<in> set s \<Longrightarrow> Email u = email \<Longrightarrow>
     CreateUser gid now s name email = (Inl (NewConflictError ''email already exists''), s)"
  by (auto simp: CreateUser_def checkEmailExists_eq)

lemma UpdateUser_NotFound:
  "map_of s ident = None \<Longrightarrow>
     UpdateUser now s ident name email = (Inl (NewNotFoundError ''user'' ident), s)"
  by (simp add: UpdateUser_def)

lemma UpdateUser_Conflict:
  "map_of s ident = Some user \<Longrightarrow> email \<noteq> [] \<Longrightarrow> email \<noteq> Email user \<Longrightarrow>
   emailHeldByOther s ident email = Some err \<Longrightarrow>
     UpdateUser now s ident name email = (Inl err, s)"
  by (simp add: UpdateUser_def)

lemma UpdateUser_applied:
  assumes "map_of s ident = Some user"
    and "email = [] \<or> email = Email user \<or> emailHeldByOther s ident email = None"
    and "name \<noteq> []" and "isValidEmail email"
  shows "UpdateUser now s ident name email =
           (Inr (user\<lparr>Name := name, Email := email, UpdatedAt := now\<rparr>),
            AList.update ident (user\<lparr>Name := name, Email := email, UpdatedAt := now\<rparr>) s)"
proof -
  have scan: "(if email \<noteq> [] \<and> email \<noteq> Email user
               then emailHeldByOther s ident email else None) = None"
    using assms(2) by auto
  have upd: "Update now user name email = user\<lparr>Name := name, Email := email, UpdatedAt := now\<rparr>"
    using assms(3,4) by (simp add: Update_cases)
  show ?thesis
    by (simp only: UpdateUser_def Let_def assms(1) scan option.case upd
        Validate_updated [OF assms(3,4)])
qed

lemma UpdateUser_ignored:
  assumes "map_of s ident = Some user"
    and "email = [] \<or> email = Email user \<or> emailHeldByOther s ident email = None"
    and "name = [] \<or> \<not> isValidEmail email"
  shows "UpdateUser now s ident name email =
           (case Validate user of Some err \<Rightarrow> (Inl err, s) | None \<Rightarrow> (Inr user, s))"
proof -
  have scan: "(if email \<noteq> [] \<and> email \<noteq> Email user
               then emailHeldByOther s ident email else None) = None"
    using assms(2) by auto
  have upd: "Update now user name email = user"
    using assms(3) by (auto simp: Update_cases)
  have same: "AList.update ident user s = s"
    using assms(1) by (rule AList.update_triv)
  show ?thesis
    by (simp only: UpdateUser_def Let_def assms(1) scan option.case upd same)
qed

lemma UpdateUser_error_keeps_store:
  assumes err: "fst (UpdateUser now s ident name email) = Inl e"
  shows "snd (UpdateUser now s ident name email) = s"
proof (cases "map_of s ident")
  case None
  then show ?thesis by (simp add: UpdateUser_NotFound)
next
  case (Some user)
  show ?thesis
  proof (cases "email \<noteq> [] \<and> email \<noteq> Email user \<and> emailHeldByOther s ident email \<noteq> None")
    case True
    then obtain c where "emailHeldByOther s ident email = Some c" by blast
    with True Some show ?thesis by (simp add: UpdateUser_Conflict)
  next
    case False
    then have free: "email = [] \<or> email = Email user \<or> emailHeldByOther s ident email = None"
      by blast
    show ?thesis
    proof (cases "name \<noteq> [] \<and> isValidEmail email")
      case True
      then have "fst (UpdateUser now s ident name email)
                   = Inr (user\<lparr>Name := name, Email := email, UpdatedAt := now\<rparr>)"
        using UpdateUser_applied [OF Some free] by simp
      with err show ?thesis by simp
    next
      case False
      then have "name = [] \<or> \<not> isValidEmail email" by blast
      from UpdateUser_ignored [OF Some free this]
      show ?thesis by (cases "Validate user") simp_all
    qed
  qed
qed

lemma DeleteUser_NotFound:
  "map_of s ident = None \<Longrightarrow> DeleteUser s ident = (Some (NewNotFoundError ''user'' ident), s)"
  by (simp add: DeleteUser_def)

subsection \<open>Every reachable store satisfies the invariant\<close>

lemma checkEmailExists_None_iff:
  "distinct (map fst s) \<Longrightarrow>
     checkEmailExists s email = None \<longleftrightarrow> (\<forall>k u. map_of s k = Some u \<longrightarrow> Email u \<noteq> email)"
  by (auto simp: checkEmailExists_eq)

lemma emailHeldByOther_None_iff:
  "distinct (map fst s) \<Longrightarrow>
     emailHeldByOther s ident email = None \<longleftrightarrow>
       (\<forall>k u. map_of s k = Some u \<longrightarrow> ID u = ident \<or> Email u \<noteq> email)"
  by (auto simp: emailHeldByOther_eq)

lemma storeInv_Nil: "storeInv []"
  by (simp add: storeInv_def)

lemma storeInv_insert:
  assumes inv: "storeInv s" and idk: "ID u = k" and ok: "Validate u = None"
    and other: "\<forall>j v. j \<noteq> k \<and> map_of s j = Some v \<longrightarrow> Email v \<noteq> Email u"
  shows "storeInv (AList.update k u s)"
proof -
  let ?m = "map_of (AList.update k u s)"
  have m: "?m = (map_of s)(k \<mapsto> u)" by (rule update_conv')
  have d: "distinct (map fst (AList.update k u s))"
    using inv by (simp add: storeInv_def distinct_update)
  have ent: "\<forall>i w. ?m i = Some w \<longrightarrow> ID w = i \<and> Validate w = None"
    using inv idk ok unfolding m storeInv_def by (auto split: if_splits)
  have uniq: "\<forall>i j w v. ?m i = Some w \<and> ?m j = Some v \<and> Email w = Email v \<longrightarrow> i = j"
  proof (intro allI impI)
    fix i j w v
    assume h: "?m i = Some w \<and> ?m j = Some v \<and> Email w = Email v"
    show "i = j"
    proof (cases "i = k")
      case ik: True
      show ?thesis
      proof (cases "j = k")
        case True
        with ik show ?thesis by simp
      next
        case False
        with h ik other show ?thesis unfolding m by auto
      qed
    next
      case ik: False
      show ?thesis
      proof (cases "j = k")
        case True
        with h ik other show ?thesis unfolding m by auto
      next
        case False
        with h ik have "map_of s i = Some w \<and> map_of s j = Some v \<and> Email w = Email v"
          unfolding m by simp
        with inv show ?thesis unfolding storeInv_def by blast
      qed
    qed
  qed
  from d ent uniq show ?thesis unfolding storeInv_def by blast
qed

lemma storeInv_delete: "storeInv s \<Longrightarrow> storeInv (AList.delete k s)"
  unfolding storeInv_def
  by (auto simp: distinct_delete delete_conv' split: if_splits)

lemma seed_valid:
  "Validate (NewUser g t ''John Doe'' ''john.doe@example.com'') = None"
  "Validate (NewUser g t ''Jane Smith'' ''jane.smith@example.com'') = None"
  "Validate (NewUser g t ''Bob Johnson'' ''bob.johnson@example.com'') = None"
  by (simp_all add: Validate_def NewUser_def isValidEmail_def dotAfter.simps)

lemma storeInv_fresh: "storeInv (NewInMemoryUserService g1 t1 g2 t2 g3 t3)"
proof -
  let ?u1 = "NewUser g1 t1 ''John Doe'' ''john.doe@example.com''"
  let ?u2 = "NewUser g2 t2 ''Jane Smith'' ''jane.smith@example.com''"
  let ?u3 = "NewUser g3 t3 ''Bob Johnson'' ''bob.johnson@example.com''"
  have 1: "storeInv (AList.update g1 ?u1 [])"
    by (rule storeInv_insert [OF storeInv_Nil]) (auto simp: seed_valid NewUser_sel)
  have 2: "storeInv (AList.update g2 ?u2 (AList.update g1 ?u1 []))"
    by (rule storeInv_insert [OF 1]) (auto simp: seed_valid NewUser_sel split: if_splits)
  have 3: "storeInv (AList.update g3 ?u3 (AList.update g2 ?u2 (AList.update g1 ?u1 [])))"
    by (rule storeInv_insert [OF 2])
      (auto simp: seed_valid NewUser_sel update_conv' split: if_splits)
  show ?thesis
    unfolding NewInMemoryUserService_def seedData_def Let_def
    by (simp only: foldl.simps NewUser_sel 3)
qed

lemma storeInv_CreateUser: "storeInv s \<Longrightarrow> storeInv (snd (CreateUser gid now s name email))"
proof -
  assume inv: "storeInv s"
  then have d: "distinct (map fst s)" by (simp add: storeInv_def)
  show ?thesis
  proof (cases "checkEmailExists s email")
    case (Some err)
    with inv show ?thesis by (simp add: CreateUser_def)
  next
    case None
    note free = None [unfolded checkEmailExists_None_iff [OF d]]
    show ?thesis
    proof (cases "Validate (NewUser gid now name email)")
      case (Some err)
      with None inv show ?thesis by (simp add: CreateUser_def)
    next
      case ok: None
      have "storeInv (AList.update gid (NewUser gid now name email) s)"
        by (rule storeInv_insert [OF inv _ ok]) (use free in \<open>auto simp: NewUser_sel\<close>)
      with None ok show ?thesis by (simp add: CreateUser_def NewUser_sel Let_def)
    qed
  qed
qed

lemma storeInv_UpdateUser:
  assumes inv: "storeInv s"
  shows "storeInv (snd (UpdateUser now s ident name email))"
proof (cases "fst (UpdateUser now s ident name email)")
  case (Inl e)
  then show ?thesis using inv by (simp add: UpdateUser_error_keeps_store)
next
  case (Inr user')
  from inv have d: "distinct (map fst s)" by (simp add: storeInv_def)
  have "map_of s ident \<noteq> None"
  proof
    assume "map_of s ident = None"
    from UpdateUser_NotFound [OF this, of now name email] Inr show False by simp
  qed
  then obtain user where look: "map_of s ident = Some user" by blast
  from inv look have idu: "ID user = ident" and vu: "Validate user = None"
    by (auto simp: storeInv_def)
  have free: "email = [] \<or> email = Email user \<or> emailHeldByOther s ident email = None"
  proof (rule ccontr)
    assume "\<not> ?thesis"
    then obtain c where "email \<noteq> []" "email \<noteq> Email user" "emailHeldByOther s ident email = Some c"
      by auto
    from UpdateUser_Conflict [OF look this] Inr show False by simp
  qed
  show ?thesis
  proof (cases "name \<noteq> [] \<and> isValidEmail email")
    case False
    then have "name = [] \<or> \<not> isValidEmail email" by blast
    from UpdateUser_ignored [OF look free this] vu
    have "snd (UpdateUser now s ident name email) = s" by simp
    with inv show ?thesis by simp
  next
    case True
    let ?u = "user\<lparr>Name := name, Email := email, UpdatedAt := now\<rparr>"
    have other: "\<forall>j v. j \<noteq> ident \<and> map_of s j = Some v \<longrightarrow> Email v \<noteq> Email ?u"
    proof (intro allI impI)
      fix j v assume jv: "j \<noteq> ident \<and> map_of s j = Some v"
      then have idv: "ID v = j" using inv by (auto simp: storeInv_def)
      have "Email v \<noteq> email"
      proof (cases "email = Email user")
        case True
        then show ?thesis using inv jv look unfolding storeInv_def by metis
      next
        case False
        moreover have "email \<noteq> []" using True isValidEmail_Nil by auto
        ultimately have "emailHeldByOther s ident email = None" using free by simp
        then show ?thesis using jv idv by (auto simp: emailHeldByOther_None_iff [OF d])
      qed
      then show "Email v \<noteq> Email ?u" by simp
    qed
    have "storeInv (AList.update ident ?u s)"
    proof (rule storeInv_insert [OF inv _ _ other])
      show "ID ?u = ident" using idu by simp
      show "Validate ?u = None" using True by (simp add: Validate_updated)
    qed
    moreover have "snd (UpdateUser now s ident name email) = AList.update ident ?u s"
      using UpdateUser_applied [OF look free] True by simp
    ultimately show ?thesis by simp
  qed
qed

lemma storeInv_DeleteUser: "storeInv s \<Longrightarrow> storeInv (snd (DeleteUser s ident))"
  by (auto simp: DeleteUser_def storeInv_delete split: option.splits)

lemma reachable_storeInv: "reachable s \<Longrightarrow> storeInv s"
  by (induction rule: reachable.induct)
    (simp_all add: storeInv_fresh storeInv_CreateUser storeInv_UpdateUser storeInv_DeleteUser)

lemma storeInv_uniqueEmails: "storeInv s \<Longrightarrow> uniqueEmails s"
  unfolding storeInv_def uniqueEmails_def by blast

subsection \<open>The seeded store\<close>

lemma NewInMemoryUserService_example:
  "NewInMemoryUserService ''1'' 1 ''2'' 2 ''3'' 3 =
     [(''1'', NewUser ''1'' 1 ''John Doe'' ''john.doe@example.com''),
      (''2'', NewUser ''2'' 2 ''Jane Smith'' ''jane.smith@example.com''),
      (''3'', NewUser ''3'' 3 ''Bob Johnson'' ''bob.johnson@example.com'')]"
  by (simp add: NewInMemoryUserService_def seedData_def NewUser_def)

lemma NewInMemoryUserService_distinct:
  "distinct [g1, g2, g3] \<Longrightarrow>
     NewInMemoryUserService g1 t1 g2 t2 g3 t3 =
       [(g1, NewUser g1 t1 ''John Doe'' ''john.doe@example.com''),
        (g2, NewUser g2 t2 ''Jane Smith'' ''jane.smith@example.com''),
        (g3, NewUser g3 t3 ''Bob Johnson'' ''bob.johnson@example.com'')]"
  by (auto simp: NewInMemoryUserService_def seedData_def NewUser_sel)

lemma dup_valid: "Validate (NewUser g t ''Alice'' ''dup@example.com'') = None"
  "Validate (NewUser g t ''Bob'' ''dup@example.com'') = None"
  by (simp_all add: Validate_def NewUser_def isValidEmail_def dotAfter.simps)

subsection \<open>The two critical sections make up CreateUser\<close>

text \<open>
  Run one after the other with nothing in between, the two steps are the sequential
  \<^const>\<open>CreateUser\<close>; two calls with one email that run one after the other give one user
  and one Conflict.
\<close>

lemma createStep_CreateUser:
  "(case createStep gid now s (AtCheck name email) of
      (s1, pc1) \<Rightarrow> createStep gid now s1 pc1)
   = (snd (CreateUser gid now s name email), Returned (fst (CreateUser gid now s name email)))"
  by (cases "checkEmailExists s email"; cases "Validate (NewUser gid now name email)")
    (simp_all add: CreateUser_def Let_def NewUser_sel)

lemma sequential_CreateUser_same_email:
  "runSchedule (NewInMemoryUserService ''1'' 1 ''2'' 2 ''3'' 3)
     [(''a'', 10, AtCheck ''Alice'' ''dup@example.com''),
      (''b'', 11, AtCheck ''Bob'' ''dup@example.com'')]
     [0, 0, 1, 1]
   = (NewInMemoryUserService ''1'' 1 ''2'' 2 ''3'' 3
        @ [(''a'', NewUser ''a'' 10 ''Alice'' ''dup@example.com'')],
      [(''a'', 10, Returned (Inr (NewUser ''a'' 10 ''Alice'' ''dup@example.com''))),
       (''b'', 11, Returned (Inl (NewConflictError ''email already exists'')))])"
  by (simp add: NewInMemoryUserService_example NewUser_sel dup_valid Let_def)

subsection \<open>Routing inside the user handler\<close>




section \<open>The claims\<close>

subsection \<open>C1: validation failures of CreateUser and UpdateUser\<close>




subsection \<open>C2: an update of the name alone\<close>

text \<open>
  C2 asks that \<^verbatim>\<open>UpdateUser(id, name, "")\<close> stores the new name and advances
  \<^verbatim>\<open>updated_at\<close>. The code does neither: \<^verbatim>\<open>User.Update\<close> validates a temporary user made
  of the two arguments, the empty email fails that validation, and the method returns
  before its own \<^verbatim>\<open>if name != ""\<close> assignment. On the seeded store the call returns the
  user as it was, name and \<^verbatim>\<open>updated_at\<close> included.
\<close>

theorem UpdateUser_name_only_ignored:
  "UpdateUser 9 (NewInMemoryUserService ''1'' 1 ''2'' 2 ''3'' 3) ''1'' ''Johnny'' []
     = (Inr \<lparr>ID = ''1'', Name = ''John Doe'', Email = ''john.doe@example.com'',
              CreatedAt = 1, UpdatedAt = 1\<rparr>,
        NewInMemoryUserService ''1'' 1 ''2'' 2 ''3'' 3)"
  by (simp add: NewInMemoryUserService_example UpdateUser_def Update_cases NewUser_def
      seed_valid [unfolded NewUser_def] isValidEmail_Nil Let_def)

subsection \<open>C3: a failed update and the stored record\<close>




subsection \<open>C4: no email is held twice\<close>

text \<open>
  C4: in every store reached from a fresh service by calls of \<^verbatim>\<open>CreateUser\<close>,
  \<^verbatim>\<open>UpdateUser\<close> and \<^verbatim>\<open>DeleteUser\<close> made one after the other, no two ids hold the same
  email; \<^verbatim>\<open>CreateUser\<close> with the email of a stored user is a Conflict whatever the name;
  and \<^verbatim>\<open>UpdateUser\<close> with a non-empty email that differs from the user's own and is held
  under another id is a Conflict. Both leave the store as it was.
\<close>

theorem email_unique_reachable:
  "reachable s \<Longrightarrow>
     uniqueEmails s
   \<and> (\<forall>k u gid now name. map_of s k = Some u \<longrightarrow>
          CreateUser gid now s name (Email u) = (Inl (NewConflictError ''email already exists''), s))
   \<and> (\<forall>ident u j v now name email.
          map_of s ident = Some u \<and> map_of s j = Some v \<and> j \<noteq> ident
          \<and> email \<noteq> [] \<and> email \<noteq> Email u \<and> Email v = email \<longrightarrow>
          UpdateUser now s ident name email = (Inl (NewConflictError ''email already exists''), s))"
proof (intro conjI allI impI)
  assume r: "reachable s"
  then have inv: "storeInv s" by (rule reachable_storeInv)
  then show "uniqueEmails s" by (rule storeInv_uniqueEmails)
  {
    fix k u gid now name
    assume "map_of s k = Some u"
    then have "(k, u) \<in> set s" by (rule map_of_SomeD)
    then show "CreateUser gid now s name (Email u) = (Inl (NewConflictError ''email already exists''), s)"
      by (rule CreateUser_Conflict) simp
  }
  {
    fix ident u j v now name email
    assume h: "map_of s ident = Some u \<and> map_of s j = Some v \<and> j \<noteq> ident
          \<and> email \<noteq> [] \<and> email \<noteq> Email u \<and> Email v = email"
    then have "(j, v) \<in> set s" by (auto dest: map_of_SomeD)
    moreover have "ID v = j" using inv h by (auto simp: storeInv_def)
    ultimately have "emailHeldByOther s ident email = Some (NewConflictError ''email already exists'')"
      using h by (auto simp: emailHeldByOther_eq)
    with h show "UpdateUser now s ident name email = (Inl (NewConflictError ''email already exists''), s)"
      using UpdateUser_Conflict [of s ident u email] by simp
  }
qed

theorem email_unique_reachable_witness:
  "uniqueEmails (NewInMemoryUserService ''1'' 1 ''2'' 2 ''3'' 3)
   \<and> CreateUser ''4'' 9 (NewInMemoryUserService ''1'' 1 ''2'' 2 ''3'' 3) ''Someone Else''
        ''jane.smith@example.com''
       = (Inl (NewConflictError ''email already exists''), NewInMemoryUserService ''1'' 1 ''2'' 2 ''3'' 3)
   \<and> UpdateUser 9 (NewInMemoryUserService ''1'' 1 ''2'' 2 ''3'' 3) ''1'' ''John'' ''jane.smith@example.com''
       = (Inl (NewConflictError ''email already exists''), NewInMemoryUserService ''1'' 1 ''2'' 2 ''3'' 3)"
proof -
  let ?s = "NewInMemoryUserService ''1'' 1 ''2'' 2 ''3'' 3"
  have r: "reachable ?s" by (rule reachable.fresh)
  have a: "map_of ?s ''1'' = Some (NewUser ''1'' 1 ''John Doe'' ''john.doe@example.com'')"
    and b: "map_of ?s ''2'' = Some (NewUser ''2'' 2 ''Jane Smith'' ''jane.smith@example.com'')"
    by (simp_all add: NewInMemoryUserService_example)
  note main = email_unique_reachable [OF r]
  from main have 1: "uniqueEmails ?s" by blast
  from main b have 2: "CreateUser ''4'' 9 ?s ''Someone Else''
        (Email (NewUser ''2'' 2 ''Jane Smith'' ''jane.smith@example.com''))
       = (Inl (NewConflictError ''email already exists''), ?s)" by blast
  from main have "map_of ?s ''1'' = Some (NewUser ''1'' 1 ''John Doe'' ''john.doe@example.com'')
      \<and> map_of ?s ''2'' = Some (NewUser ''2'' 2 ''Jane Smith'' ''jane.smith@example.com'')
      \<and> ''2'' \<noteq> ''1'' \<and> ''jane.smith@example.com'' \<noteq> []
      \<and> ''jane.smith@example.com'' \<noteq> Email (NewUser ''1'' 1 ''John Doe'' ''john.doe@example.com'')
      \<and> Email (NewUser ''2'' 2 ''Jane Smith'' ''jane.smith@example.com'') = ''jane.smith@example.com''
      \<longrightarrow> UpdateUser 9 ?s ''1'' ''John'' ''jane.smith@example.com''
       = (Inl (NewConflictError ''email already exists''), ?s)" by blast
  with a b have 3: "UpdateUser 9 ?s ''1'' ''John'' ''jane.smith@example.com''
       = (Inl (NewConflictError ''email already exists''), ?s)" by (simp add: NewUser_sel)
  from 1 2 3 show ?thesis by (simp add: NewUser_sel)
qed

subsection \<open>C5: the structural rule for an email\<close>

text \<open>
  C5: \<^verbatim>\<open>isValidEmail\<close> accepts a string exactly when it has one \<^verbatim>\<open>@\<close>, at a position
  \<open>a\<close> that is neither the first nor the last, and a \<^verbatim>\<open>.\<close> at a position after \<open>a\<close>
  and before the last. Positions are byte positions; \<^verbatim>\<open>@\<close> and \<^verbatim>\<open>.\<close> are single bytes,
  so the same holds read in characters.
\<close>

theorem isValidEmail_iff:
  "isValidEmail s \<longleftrightarrow>
     (\<exists>a. a < length s \<and> s ! a = CHR ''@'' \<and> count_list s (CHR ''@'') = 1
          \<and> a \<noteq> 0 \<and> a \<noteq> length s - 1
          \<and> (\<exists>i. a < i \<and> i < length s - 1 \<and> s ! i = CHR ''.''))"
  (is "?L \<longleftrightarrow> ?R")
proof
  assume L: ?L
  let ?a = "length (takeWhile (\<lambda>c. c \<noteq> CHR ''@'') s)"
  from L have c1: "count_list s (CHR ''@'') = 1"
    by (auto simp: isValidEmail_def scanAt_start split: if_splits)
  then have at: "?a < length s" "s ! ?a = CHR ''@''"
    using count_pos_index [of s "CHR ''@''"] by auto
  from L c1 have "?a \<noteq> 0" "int ?a \<noteq> int (length s) - 1" "dotAfter s (Suc ?a)"
    by (auto simp: isValidEmail_def scanAt_start nat_add_distrib split: if_splits)
  then show ?R using at c1
    by (intro exI [of _ ?a]) (auto simp: dotAfter_iff Suc_le_eq)
next
  assume ?R
  then obtain a i where a: "a < length s" "s ! a = CHR ''@''" "count_list s (CHR ''@'') = 1"
    "a \<noteq> 0" "a \<noteq> length s - 1" and i: "a < i" "i < length s - 1" "s ! i = CHR ''.''"
    by blast
  have eq: "a = length (takeWhile (\<lambda>c. c \<noteq> CHR ''@'') s)"
    using count_one_index a by fastforce
  have "dotAfter s (Suc a)" unfolding dotAfter_iff using i by (intro exI [of _ i]) auto
  moreover have "int a \<noteq> int (length s) - 1" using a by linarith
  ultimately show ?L using a eq
    by (simp add: isValidEmail_def scanAt_start nat_add_distrib)
qed

theorem isValidEmail_iff_witness:
  "isValidEmail ''test@example.com''"
proof -
  have "(4::nat) < length ''test@example.com'' \<and> ''test@example.com'' ! 4 = CHR ''@''
        \<and> count_list ''test@example.com'' (CHR ''@'') = 1
        \<and> (4::nat) \<noteq> 0 \<and> 4 \<noteq> length ''test@example.com'' - 1
        \<and> (\<exists>i. 4 < i \<and> i < length ''test@example.com'' - 1 \<and> ''test@example.com'' ! i = CHR ''.'')"
    by (auto intro!: exI [of _ 12])
  then show ?thesis using isValidEmail_iff [of "''test@example.com''"] by blast
qed

subsection \<open>C6: concurrent calls of CreateUser with one email\<close>

text \<open>
  C6 asks that the uniqueness scan and the insert of \<^verbatim>\<open>CreateUser\<close> run under one
  exclusive lock, so that of two concurrent calls with the same email one succeeds and
  one gets a Conflict. In the code the scan runs under the read lock, which is released
  before the write lock is taken. When both calls scan before either inserts, both
  succeed and the store holds the email under two ids.
\<close>

theorem concurrent_CreateUser_same_email:
  "runSchedule (NewInMemoryUserService ''1'' 1 ''2'' 2 ''3'' 3)
     [(''a'', 10, AtCheck ''Alice'' ''dup@example.com''),
      (''b'', 11, AtCheck ''Bob'' ''dup@example.com'')]
     [0, 1, 0, 1]
   = (NewInMemoryUserService ''1'' 1 ''2'' 2 ''3'' 3
        @ [(''a'', NewUser ''a'' 10 ''Alice'' ''dup@example.com''),
           (''b'', NewUser ''b'' 11 ''Bob'' ''dup@example.com'')],
      [(''a'', 10, Returned (Inr (NewUser ''a'' 10 ''Alice'' ''dup@example.com''))),
       (''b'', 11, Returned (Inr (NewUser ''b'' 11 ''Bob'' ''dup@example.com'')))])
   \<and> \<not> uniqueEmails (fst (runSchedule (NewInMemoryUserService ''1'' 1 ''2'' 2 ''3'' 3)
     [(''a'', 10, AtCheck ''Alice'' ''dup@example.com''),
      (''b'', 11, AtCheck ''Bob'' ''dup@example.com'')]
     [0, 1, 0, 1]))"
proof -
  let ?s = "NewInMemoryUserService ''1'' 1 ''2'' 2 ''3'' 3"
  let ?a = "NewUser ''a'' 10 ''Alice'' ''dup@example.com''"
  let ?b = "NewUser ''b'' 11 ''Bob'' ''dup@example.com''"
  have run: "runSchedule ?s
     [(''a'', 10, AtCheck ''Alice'' ''dup@example.com''),
      (''b'', 11, AtCheck ''Bob'' ''dup@example.com'')] [0, 1, 0, 1]
     = (?s @ [(''a'', ?a), (''b'', ?b)],
        [(''a'', 10, Returned (Inr ?a)), (''b'', 11, Returned (Inr ?b))])"
    by (simp add: NewInMemoryUserService_example NewUser_sel dup_valid Let_def)
  have "map_of (?s @ [(''a'', ?a), (''b'', ?b)]) ''a'' = Some ?a"
    and "map_of (?s @ [(''a'', ?a), (''b'', ?b)]) ''b'' = Some ?b"
    by (simp_all add: NewInMemoryUserService_example)
  moreover have "''a'' \<noteq> ''b''" and "Email ?a = Email ?b" by (simp_all add: NewUser_sel)
  ultimately have "\<not> uniqueEmails (?s @ [(''a'', ?a), (''b'', ?b)])"
    unfolding uniqueEmails_def by blast
  with run show ?thesis by simp
qed

theorem concurrent_CreateUser_same_email_witness:
  "\<exists>i j u v.
     map_of (fst (runSchedule (NewInMemoryUserService ''1'' 1 ''2'' 2 ''3'' 3)
       [(''a'', 10, AtCheck ''Alice'' ''dup@example.com''),
        (''b'', 11, AtCheck ''Bob'' ''dup@example.com'')]
       [0, 1, 0, 1])) i = Some u
   \<and> map_of (fst (runSchedule (NewInMemoryUserService ''1'' 1 ''2'' 2 ''3'' 3)
       [(''a'', 10, AtCheck ''Alice'' ''dup@example.com''),
        (''b'', 11, AtCheck ''Bob'' ''dup@example.com'')]
       [0, 1, 0, 1])) j = Some v
   \<and> i \<noteq> j \<and> Email u = Email v"
  using concurrent_CreateUser_same_email unfolding uniqueEmails_def by blast

subsection \<open>C7: an id that is not in the store\<close>

text \<open>
  C7: for an id with no entry, \<^verbatim>\<open>GetUserByID\<close>, \<^verbatim>\<open>UpdateUser\<close> and \<^verbatim>\<open>DeleteUser\<close> each
  return the NotFound error and the store is unchanged; after a \<^verbatim>\<open>DeleteUser\<close> that
  succeeded, a second \<^verbatim>\<open>DeleteUser\<close> of the same id returns NotFound.
\<close>

theorem absent_id_NotFound:
  "(map_of s ident = None \<longrightarrow>
      GetUserByID s ident = Inl (NewNotFoundError ''user'' ident)
    \<and> UpdateUser now s ident name email = (Inl (NewNotFoundError ''user'' ident), s)
    \<and> DeleteUser s ident = (Some (NewNotFoundError ''user'' ident), s)
    \<and> Type (NewNotFoundError ''user'' ident) = ErrorTypeNotFound)
   \<and> (fst (DeleteUser s ident) = None \<longrightarrow>
        DeleteUser (snd (DeleteUser s ident)) ident
          = (Some (NewNotFoundError ''user'' ident), snd (DeleteUser s ident)))"
proof (intro conjI impI)
  assume n: "map_of s ident = None"
  then show "GetUserByID s ident = Inl (NewNotFoundError ''user'' ident)"
    by (simp add: GetUserByID_def)
  from n show "UpdateUser now s ident name email = (Inl (NewNotFoundError ''user'' ident), s)"
    by (rule UpdateUser_NotFound)
  from n show "DeleteUser s ident = (Some (NewNotFoundError ''user'' ident), s)"
    by (rule DeleteUser_NotFound)
  show "Type (NewNotFoundError ''user'' ident) = ErrorTypeNotFound"
    by (simp add: NewNotFoundError_def)
next
  assume ok: "fst (DeleteUser s ident) = None"
  then have "snd (DeleteUser s ident) = AList.delete ident s"
    by (auto simp: DeleteUser_def split: option.splits)
  moreover have "map_of (AList.delete ident s) ident = None"
    by (simp add: delete_conv')
  ultimately show "DeleteUser (snd (DeleteUser s ident)) ident
          = (Some (NewNotFoundError ''user'' ident), snd (DeleteUser s ident))"
    by (simp add: DeleteUser_NotFound)
qed

theorem absent_id_NotFound_witness:
  "GetUserByID (NewInMemoryUserService ''1'' 1 ''2'' 2 ''3'' 3) ''non-existing-id''
     = Inl (NewNotFoundError ''user'' ''non-existing-id'')
   \<and> fst (DeleteUser (NewInMemoryUserService ''1'' 1 ''2'' 2 ''3'' 3) ''2'') = None
   \<and> fst (DeleteUser (snd (DeleteUser (NewInMemoryUserService ''1'' 1 ''2'' 2 ''3'' 3) ''2'')) ''2'')
       = Some (NewNotFoundError ''user'' ''2'')"
proof -
  let ?s = "NewInMemoryUserService ''1'' 1 ''2'' 2 ''3'' 3"
  have a: "map_of ?s ''non-existing-id'' = None" by (simp add: NewInMemoryUserService_example)
  have b: "fst (DeleteUser ?s ''2'') = None" by (simp add: NewInMemoryUserService_example DeleteUser_def)
  from absent_id_NotFound [of ?s "''non-existing-id''" 9 "''x''" "''y''"] a
  have 1: "GetUserByID ?s ''non-existing-id'' = Inl (NewNotFoundError ''user'' ''non-existing-id'')"
    by blast
  from absent_id_NotFound [of ?s "''2''" 9 "''x''" "''y''"] b
  have 2: "fst (DeleteUser (snd (DeleteUser ?s ''2'')) ''2'') = Some (NewNotFoundError ''user'' ''2'')"
    by simp
  from 1 b 2 show ?thesis by blast
qed

subsection \<open>C8: create, then get\<close>

text \<open>
  C8: with a non-empty name and a structurally valid email that no stored user holds,
  \<^verbatim>\<open>CreateUser\<close> succeeds and returns a user with the generated id, and \<^verbatim>\<open>GetUserByID\<close>
  of that id on the resulting store returns a user with that name, that email, and
  \<^verbatim>\<open>created_at\<close> equal to \<^verbatim>\<open>updated_at\<close>.
\<close>

theorem CreateUser_then_GetUserByID:
  assumes "name \<noteq> []" and "isValidEmail email" and "\<forall>(k, u) \<in> set s. Email u \<noteq> email"
  shows "\<exists>user s'. CreateUser gid now s name email = (Inr user, s')
           \<and> ID user = gid
           \<and> (\<exists>got. GetUserByID s' (ID user) = Inr got
                 \<and> Name got = name \<and> Email got = email \<and> CreatedAt got = UpdatedAt got)"
proof -
  let ?user = "NewUser gid now name email"
  have free: "checkEmailExists s email = None"
    using assms(3) by (auto simp: checkEmailExists_eq)
  have ok: "Validate ?user = None"
    using assms(1,2) by (simp add: Validate_None_iff NewUser_sel)
  have c: "CreateUser gid now s name email = (Inr ?user, AList.update gid ?user s)"
    by (simp add: CreateUser_def free ok Let_def NewUser_sel)
  have g: "GetUserByID (AList.update gid ?user s) (ID ?user) = Inr ?user"
    by (simp add: GetUserByID_def update_conv' NewUser_sel)
  show ?thesis
    using c g by (intro exI [of _ ?user] exI [of _ "AList.update gid ?user s"]) (simp add: NewUser_sel)
qed

theorem CreateUser_then_GetUserByID_witness:
  "\<exists>user s'. CreateUser ''4'' 9 (NewInMemoryUserService ''1'' 1 ''2'' 2 ''3'' 3) ''Alice'' ''alice@example.com''
                 = (Inr user, s')
           \<and> ID user = ''4''
           \<and> (\<exists>got. GetUserByID s' (ID user) = Inr got
                 \<and> Name got = ''Alice'' \<and> Email got = ''alice@example.com''
                 \<and> CreatedAt got = UpdatedAt got)"
proof -
  have a: "''Alice'' \<noteq> []" by simp
  have b: "isValidEmail ''alice@example.com''"
    by (simp add: isValidEmail_def dotAfter.simps)
  have c: "\<forall>(k, u) \<in> set (NewInMemoryUserService ''1'' 1 ''2'' 2 ''3'' 3). Email u \<noteq> ''alice@example.com''"
    by (simp add: NewInMemoryUserService_example NewUser_sel)
  show ?thesis by (rule CreateUser_then_GetUserByID [OF a b c])
qed

subsection \<open>C9: status 405 and status 404\<close>




subsection \<open>C10: the seeded store\<close>

text \<open>
  C10: when the three generated ids differ, a fresh service holds exactly the three seeded
  users, so \<^verbatim>\<open>GetUsers\<close> returns three users, and \<^verbatim>\<open>CreateUser\<close> with any of the three
  seeded emails is a Conflict.
\<close>

theorem fresh_store_seeded:
  assumes "distinct [g1, g2, g3]"
  shows "length (GetUsers (NewInMemoryUserService g1 t1 g2 t2 g3 t3)) = 3
       \<and> set (GetUsers (NewInMemoryUserService g1 t1 g2 t2 g3 t3)) =
            {NewUser g1 t1 ''John Doe'' ''john.doe@example.com'',
             NewUser g2 t2 ''Jane Smith'' ''jane.smith@example.com'',
             NewUser g3 t3 ''Bob Johnson'' ''bob.johnson@example.com''}
       \<and> (\<forall>email \<in> {''john.doe@example.com'', ''jane.smith@example.com'', ''bob.johnson@example.com''}.
             CreateUser gid now (NewInMemoryUserService g1 t1 g2 t2 g3 t3) name email
               = (Inl (NewConflictError ''email already exists''),
                  NewInMemoryUserService g1 t1 g2 t2 g3 t3))"
proof -
  note eq = NewInMemoryUserService_distinct [OF assms, of t1 t2 t3]
  have 1: "length (GetUsers (NewInMemoryUserService g1 t1 g2 t2 g3 t3)) = 3"
    by (simp add: eq GetUsers_def)
  have 2: "set (GetUsers (NewInMemoryUserService g1 t1 g2 t2 g3 t3)) =
            {NewUser g1 t1 ''John Doe'' ''john.doe@example.com'',
             NewUser g2 t2 ''Jane Smith'' ''jane.smith@example.com'',
             NewUser g3 t3 ''Bob Johnson'' ''bob.johnson@example.com''}"
    by (simp add: eq GetUsers_def)
  have 3: "\<forall>email \<in> {''john.doe@example.com'', ''jane.smith@example.com'', ''bob.johnson@example.com''}.
             CreateUser gid now (NewInMemoryUserService g1 t1 g2 t2 g3 t3) name email
               = (Inl (NewConflictError ''email already exists''),
                  NewInMemoryUserService g1 t1 g2 t2 g3 t3)"
    unfolding eq by (simp add: CreateUser_def NewUser_sel)
  from 1 2 3 show ?thesis by blast
qed

theorem fresh_store_seeded_witness:
  "length (GetUsers (NewInMemoryUserService ''1'' 1 ''2'' 2 ''3'' 3)) = 3
   \<and> CreateUser ''4'' 9 (NewInMemoryUserService ''1'' 1 ''2'' 2 ''3'' 3) ''Bobby''
        ''bob.johnson@example.com''
       = (Inl (NewConflictError ''email already exists''), NewInMemoryUserService ''1'' 1 ''2'' 2 ''3'' 3)"
proof -
  have d: "distinct [''1'', ''2'', ''3'']" by simp
  from fresh_store_seeded [OF d, of 1 2 3 "''4''" 9 "''Bobby''"] show ?thesis by simp
qed

end
